theory Spec2Isabelle
  imports Complex_Main "HOL-Library.Multiset"
begin

section \<open>The numbers of \<^verbatim>\<open>tsp_solver.py\<close>\<close>

text \<open>
  The solvers add the entries of a distance matrix and compare the sums. An entry is a
  finite number, held as the rational it denotes. A running sum is such a number or one
  of the two infinities: \<^verbatim>\<open>best_distance\<close> starts as \<^verbatim>\<open>float('inf')\<close>, and a sum of
  floats that leaves the range of the doubles becomes infinite. Not-a-number cannot
  arise in the solvers, since every entry that is added is finite.
\<close>

datatype py_error = IndexError | KeyError | TypeError | ValueError | ZeroDivisionError

datatype pyfloat = NegInfinity | Finite rat | Infinity

text \<open>The comparisons of Python on these values.\<close>

instantiation pyfloat :: linorder
begin

fun less_eq_pyfloat :: "pyfloat \<Rightarrow> pyfloat \<Rightarrow> bool" where
  "less_eq_pyfloat NegInfinity y = True"
| "less_eq_pyfloat (Finite a) NegInfinity = False"
| "less_eq_pyfloat (Finite a) (Finite b) = (a \<le> b)"
| "less_eq_pyfloat (Finite a) Infinity = True"
| "less_eq_pyfloat Infinity NegInfinity = False"
| "less_eq_pyfloat Infinity (Finite b) = False"
| "less_eq_pyfloat Infinity Infinity = True"

definition less_pyfloat :: "pyfloat \<Rightarrow> pyfloat \<Rightarrow> bool" where
  "less_pyfloat x y = (x \<le> y \<and> \<not> y \<le> x)"

instance
proof
  fix x y z :: pyfloat
  show "(x < y) = (x \<le> y \<and> \<not> y \<le> x)" by (simp add: less_pyfloat_def)
  show "x \<le> x" by (cases x) simp_all
  show "x \<le> y \<Longrightarrow> y \<le> z \<Longrightarrow> x \<le> z" by (cases x; cases y; cases z) simp_all
  show "x \<le> y \<Longrightarrow> y \<le> x \<Longrightarrow> x = y" by (cases x; cases y) simp_all
  show "x \<le> y \<or> y \<le> x" by (cases x; cases y) auto
qed

end

text \<open>
  The arithmetic of the entries is a parameter of the model, the function that turns the
  exact value of a sum into the value Python stores. For \<^verbatim>\<open>Fraction\<close> entries, and
  for the sums and comparisons of \<^verbatim>\<open>int\<close> entries, it is \<open>exact\<close>; the quotient of two
  \<^verbatim>\<open>int\<close>s is a float. For \<^verbatim>\<open>float\<close> entries, which is what \<^verbatim>\<open>json.load\<close> gives for
  the matrices of \<^verbatim>\<open>location_generator.py\<close>, it is \<open>round_double\<close>: IEEE 754 binary64,
  round to nearest, ties to even.
\<close>

definition exact :: "rat \<Rightarrow> pyfloat" where
  "exact x = Finite x"

text \<open>
  \<open>halvings k x\<close> is the number of times \<open>x\<close> is halved until it is below 2, and
  \<open>doublings k x\<close> the number of times it is doubled until it reaches 1, at most \<open>k\<close>
  times each. For \<open>0 < x < 2 ^ 1024\<close> they give the binary exponent \<open>e\<close> of \<open>x\<close>,
  \<open>2 ^ e \<le> x < 2 ^ (e + 1)\<close>, kept at the least exponent \<open>-1022\<close> of the doubles for
  the subnormal numbers.
\<close>

fun halvings :: "nat \<Rightarrow> rat \<Rightarrow> nat" where
  "halvings 0 x = 0"
| "halvings (Suc k) x = (if x < 2 then 0 else Suc (halvings k (x / 2)))"

fun doublings :: "nat \<Rightarrow> rat \<Rightarrow> nat" where
  "doublings 0 x = 0"
| "doublings (Suc k) x = (if 1 \<le> x then 0 else Suc (doublings k (2 * x)))"

definition exponent :: "rat \<Rightarrow> int" where
  "exponent x = (if 1 \<le> x then int (halvings 1024 x) else - int (doublings 1022 x))"

definition two_pow :: "int \<Rightarrow> rat" where
  "two_pow k = (if 0 \<le> k then 2 ^ nat k else 1 / 2 ^ nat (- k))"

text \<open>The nearest integer, the even one of two that are equally near.\<close>

definition round_half_even :: "rat \<Rightarrow> int" where
  "round_half_even q =
     (let f = \<lfloor>q\<rfloor>; r = q - of_int f in
      if r < 1 / 2 then f
      else if 1 / 2 < r then f + 1
      else if even f then f else f + 1)"

text \<open>
  A double has 53 significant bits, so the doubles next to \<open>x\<close> are the multiples of
  \<open>2 ^ (e - 52)\<close>. The largest double is \<open>2 ^ 1024 - 2 ^ 971\<close>; from half a step above
  it on, the rounded value is infinite.
\<close>

definition round_magnitude :: "rat \<Rightarrow> pyfloat" where
  "round_magnitude x =
     (if x = 0 then Finite 0
      else if 2 ^ 1024 - 2 ^ 970 \<le> x then Infinity
      else
        let ulp = two_pow (exponent x - 52) in
        Finite (of_int (round_half_even (x / ulp)) * ulp))"

definition round_double :: "rat \<Rightarrow> pyfloat" where
  "round_double x =
     (if x < 0
      then (case round_magnitude (- x) of
              Finite y \<Rightarrow> Finite (- y)
            | Infinity \<Rightarrow> NegInfinity
            | NegInfinity \<Rightarrow> Infinity)
      else round_magnitude x)"

text \<open>\<^verbatim>\<open>total += w\<close> for a running sum and an entry: an infinite sum stays as it is.\<close>

fun add :: "(rat \<Rightarrow> pyfloat) \<Rightarrow> pyfloat \<Rightarrow> rat \<Rightarrow> pyfloat" where
  "add rnd (Finite a) w = rnd (a + w)"
| "add rnd Infinity w = Infinity"
| "add rnd NegInfinity w = NegInfinity"

section \<open>The route solvers of \<^verbatim>\<open>tsp_solver.py\<close>\<close>

text \<open>
  Locations are the indices produced by \<^verbatim>\<open>range(n)\<close>, natural numbers. Every exception
  the code can raise is a value of \<open>py_error\<close>.
\<close>

text \<open>\<^verbatim>\<open>xs[i]\<close> for an index that is not negative; \<^verbatim>\<open>distances[i][j]\<close>.\<close>

definition getitem :: "'a list \<Rightarrow> nat \<Rightarrow> py_error + 'a" where
  "getitem xs i = (if i < length xs then Inr (xs ! i) else Inl IndexError)"

definition dist_at :: "rat list list \<Rightarrow> nat \<Rightarrow> nat \<Rightarrow> py_error + rat" where
  "dist_at distances i j =
     (case getitem distances i of
        Inl e \<Rightarrow> Inl e
      | Inr row \<Rightarrow> getitem row j)"

subsection \<open>Brute force\<close>

text \<open>
  \<^verbatim>\<open>itertools.permutations\<close> yields the orderings of its input in lexicographic order
  of positions: every position in turn supplies the first element, followed by the
  orderings of the remaining elements, themselves kept in their input order.
\<close>

function permutations :: "'a list \<Rightarrow> 'a list list" where
  "permutations xs =
     (if xs = [] then [[]]
      else concat (map (\<lambda>i. map ((#) (xs ! i)) (permutations (take i xs @ drop (Suc i) xs)))
                       [0..<length xs]))"
  by pat_completeness auto
termination
  by (relation "measure length") auto

declare permutations.simps [simp del]

text \<open>
  \<^verbatim>\<open>for i in range(len(route) - 1): distance += distances[route[i]][route[i + 1]]\<close>.
  The positions \<open>i\<close> and \<open>i + 1\<close> are inside the route for every \<open>i\<close> of that range.
\<close>

fun distance_loop :: "(rat \<Rightarrow> pyfloat) \<Rightarrow> rat list list \<Rightarrow> nat list \<Rightarrow> nat list \<Rightarrow> pyfloat \<Rightarrow>
    py_error + pyfloat" where
  "distance_loop rnd distances route [] distance = Inr distance"
| "distance_loop rnd distances route (i # is) distance =
     (case dist_at distances (route ! i) (route ! (i + 1)) of
        Inl e \<Rightarrow> Inl e
      | Inr w \<Rightarrow> distance_loop rnd distances route is (add rnd distance w))"

definition route_distance :: "(rat \<Rightarrow> pyfloat) \<Rightarrow> rat list list \<Rightarrow> nat list \<Rightarrow> py_error + pyfloat" where
  "route_distance rnd distances route =
     distance_loop rnd distances route [0..<length route - 1] (Finite 0)"

text \<open>
  The loop over the permutations. \<open>clock k\<close> is the value of the \<open>k\<close>-th call of
  \<^verbatim>\<open>time.time()\<close> made by one invocation: call \<open>0\<close> sets \<^verbatim>\<open>start_time\<close>, and the
  check at the head of the iteration that finds \<^verbatim>\<open>routes_checked = k\<close> is call
  \<open>k + 1\<close>. The state is \<^verbatim>\<open>(best_distance, best_route, routes_checked)\<close>. The result is
  the returned pair; \<^verbatim>\<open>(None, None)\<close> is the pair of the timeout branch. A sum that is
  infinite is not below the initial \<^verbatim>\<open>float('inf')\<close>.
\<close>

type_synonym bf_result = "nat list option \<times> pyfloat option"

fun bf_loop :: "(rat \<Rightarrow> pyfloat) \<Rightarrow> (nat \<Rightarrow> rat) \<Rightarrow> rat list list \<Rightarrow> rat \<Rightarrow> nat \<Rightarrow>
    nat list list \<Rightarrow> pyfloat \<times> nat list option \<times> nat \<Rightarrow> py_error + bf_result" where
  "bf_loop rnd clock distances timeout start [] (best_distance, best_route, routes_checked) =
     Inr (best_route, Some best_distance)"
| "bf_loop rnd clock distances timeout start (perm # perms)
       (best_distance, best_route, routes_checked) =
     (if clock (Suc routes_checked) - clock 0 > timeout then Inr (None, None)
      else
        let route = [start] @ perm @ [start] in
        case route_distance rnd distances route of
          Inl e \<Rightarrow> Inl e
        | Inr distance \<Rightarrow>
            if distance < best_distance
            then bf_loop rnd clock distances timeout start perms
                   (distance, Some (butlast route), routes_checked + 1)
            else bf_loop rnd clock distances timeout start perms
                   (best_distance, best_route, routes_checked + 1))"

definition tsp_brute_force ::
    "(rat \<Rightarrow> pyfloat) \<Rightarrow> (nat \<Rightarrow> rat) \<Rightarrow> rat list list \<Rightarrow> rat \<Rightarrow> py_error + bf_result" where
  "tsp_brute_force rnd clock distances timeout =
     (let n = length distances;
          locations = [0..<n];
          start = 0;
          other_locations = filter (\<lambda>i. i \<noteq> start) locations
      in bf_loop rnd clock distances timeout start (permutations other_locations)
           (Infinity, None, 0))"

subsection \<open>Nearest neighbour\<close>

text \<open>
  \<^verbatim>\<open>min(unvisited, key=...)\<close>: the first element of the iteration whose key is not
  above any other key; an error of the key function is passed on, and an empty
  collection raises. The keys are entries of the matrix, compared as they are. The set \<^verbatim>\<open>unvisited\<close> is held as the list of its elements in
  iteration order. CPython iterates a set built from \<^verbatim>\<open>range(n)\<close> in ascending order
  (an integer hashes to itself and the table has more slots than \<open>n\<close>), and removing
  elements leaves that order unchanged.
\<close>

fun min_loop :: "(nat \<Rightarrow> py_error + rat) \<Rightarrow> nat list \<Rightarrow> nat \<Rightarrow> rat \<Rightarrow> py_error + nat" where
  "min_loop key [] best best_key = Inr best"
| "min_loop key (x # xs) best best_key =
     (case key x of
        Inl e \<Rightarrow> Inl e
      | Inr k \<Rightarrow> if k < best_key then min_loop key xs x k else min_loop key xs best best_key)"

definition py_min :: "(nat \<Rightarrow> py_error + rat) \<Rightarrow> nat list \<Rightarrow> py_error + nat" where
  "py_min key xs =
     (case xs of
        [] \<Rightarrow> Inl ValueError
      | x # rest \<Rightarrow> (case key x of Inl e \<Rightarrow> Inl e | Inr k \<Rightarrow> min_loop key rest x k))"

text \<open>\<^verbatim>\<open>unvisited.remove(x)\<close> raises \<^verbatim>\<open>KeyError\<close> when \<open>x\<close> is not in the set.\<close>

definition set_remove :: "nat \<Rightarrow> nat list \<Rightarrow> py_error + nat list" where
  "set_remove x s = (if x \<in> set s then Inr (remove1 x s) else Inl KeyError)"

lemma set_remove_shorter: "set_remove x s = Inr s' \<Longrightarrow> length s' < length s"
  by (auto simp: set_remove_def length_remove1 split: if_splits) (cases s; simp)

function nn_loop :: "(rat \<Rightarrow> pyfloat) \<Rightarrow> rat list list \<Rightarrow> nat list \<Rightarrow> nat \<Rightarrow> nat list \<Rightarrow>
    pyfloat \<Rightarrow> py_error + (nat \<times> nat list \<times> pyfloat)" where
  "nn_loop rnd distances unvisited current route total_distance =
     (if unvisited = [] then Inr (current, route, total_distance)
      else
        case py_min (\<lambda>x. dist_at distances current x) unvisited of
          Inl e \<Rightarrow> Inl e
        | Inr nearest \<Rightarrow>
            (case dist_at distances current nearest of
               Inl e \<Rightarrow> Inl e
             | Inr w \<Rightarrow>
                 (case set_remove nearest unvisited of
                    Inl e \<Rightarrow> Inl e
                  | Inr unvisited' \<Rightarrow>
                      nn_loop rnd distances unvisited' nearest (route @ [nearest])
                        (add rnd total_distance w))))"
  by pat_completeness auto
termination
  by (relation
      "measure (\<lambda>(rnd, distances, unvisited, current, route, total_distance). length unvisited)")
     (auto dest: set_remove_shorter)

declare nn_loop.simps [simp del]

text \<open>
  The start index is any Python integer; \<^verbatim>\<open>unvisited.remove(start)\<close> raises unless it
  is one of \<open>0..n-1\<close>, and from there on every index is a location.
\<close>

definition tsp_nearest_neighbor ::
    "(rat \<Rightarrow> pyfloat) \<Rightarrow> rat list list \<Rightarrow> int \<Rightarrow> py_error + (nat list \<times> pyfloat)" where
  "tsp_nearest_neighbor rnd distances start =
     (let n = length distances in
      if start < 0 \<or> int n \<le> start then Inl KeyError
      else
        case set_remove (nat start) [0..<n] of
          Inl e \<Rightarrow> Inl e
        | Inr unvisited \<Rightarrow>
            (case nn_loop rnd distances unvisited (nat start) [nat start] (Finite 0) of
               Inl e \<Rightarrow> Inl e
             | Inr (current, route, total_distance) \<Rightarrow>
                 (case dist_at distances current (nat start) of
                    Inl e \<Rightarrow> Inl e
                  | Inr w \<Rightarrow> Inr (route, add rnd total_distance w))))"

subsection \<open>The experiment harness\<close>

text \<open>
  The reports are modelled by the body of each mode's loop over the dataset sizes, for one
  loaded matrix. A printed row is the list of its fields; a number under a fixed-point
  format specification \<^verbatim>\<open>.kf\<close> is the field \<open>Fixed k x\<close>, and the rendering of its
  digits and the padding of columns are left out. Formatting \<^verbatim>\<open>None\<close> under such a
  specification raises \<^verbatim>\<open>TypeError\<close>. The elapsed times measured around the solver calls
  are inputs, and \<open>size'\<close> is the dataset size (\<^verbatim>\<open>math.factorial\<close> raises
  \<^verbatim>\<open>ValueError\<close> on \<open>size' - 1\<close> when that is negative).
\<close>

datatype field = Text string | Whole nat | Fixed nat pyfloat | FixedNaN nat

definition format_f :: "nat \<Rightarrow> pyfloat option \<Rightarrow> py_error + field" where
  "format_f k v = (case v of None \<Rightarrow> Inl TypeError | Some x \<Rightarrow> Inr (Fixed k x))"

text \<open>
  \<^verbatim>\<open>(dist_nn / dist_bf) * 100\<close>. Dividing by zero raises, a finite number divided by an
  infinite one is zero, and an infinite one divided by an infinite one is not a number.
\<close>

datatype ratio = Ratio pyfloat | NaN

fun true_div :: "(rat \<Rightarrow> pyfloat) \<Rightarrow> pyfloat \<Rightarrow> pyfloat \<Rightarrow> py_error + ratio" where
  "true_div rnd a (Finite b) =
     (if b = 0 then Inl ZeroDivisionError
      else case a of
             Finite x \<Rightarrow> Inr (Ratio (rnd (x / b)))
           | Infinity \<Rightarrow> Inr (Ratio (if 0 < b then Infinity else NegInfinity))
           | NegInfinity \<Rightarrow> Inr (Ratio (if 0 < b then NegInfinity else Infinity)))"
| "true_div rnd (Finite x) Infinity = Inr (Ratio (Finite 0))"
| "true_div rnd (Finite x) NegInfinity = Inr (Ratio (Finite 0))"
| "true_div rnd a b = Inr NaN"

fun times_100 :: "(rat \<Rightarrow> pyfloat) \<Rightarrow> ratio \<Rightarrow> ratio" where
  "times_100 rnd (Ratio (Finite q)) = Ratio (rnd (q * 100))"
| "times_100 rnd r = r"

definition quality :: "(rat \<Rightarrow> pyfloat) \<Rightarrow> pyfloat \<Rightarrow> pyfloat option \<Rightarrow> py_error + ratio" where
  "quality rnd dist_nn dist_bf =
     (case dist_bf of
        None \<Rightarrow> Inl TypeError
      | Some b \<Rightarrow>
          (case true_div rnd dist_nn b of
             Inl e \<Rightarrow> Inl e
           | Inr q \<Rightarrow> Inr (times_100 rnd q)))"

definition format_ratio :: "nat \<Rightarrow> ratio \<Rightarrow> field" where
  "format_ratio k r = (case r of Ratio x \<Rightarrow> Fixed k x | NaN \<Rightarrow> FixedNaN k)"

definition test_small_cases ::
    "(rat \<Rightarrow> pyfloat) \<Rightarrow> (nat \<Rightarrow> rat) \<Rightarrow> nat \<Rightarrow> rat list list \<Rightarrow> py_error + field list list" where
  "test_small_cases rnd clock size' distances =
     (case tsp_brute_force rnd clock distances 60 of
        Inl e \<Rightarrow> Inl e
      | Inr (route_bf, dist_bf) \<Rightarrow>
          (case format_f 2 dist_bf of
             Inl e \<Rightarrow> Inl e
           | Inr shown_bf \<Rightarrow>
               (case tsp_nearest_neighbor rnd distances 0 of
                  Inl e \<Rightarrow> Inl e
                | Inr (route_nn, dist_nn) \<Rightarrow>
                    (case quality rnd dist_nn dist_bf of
                       Inl e \<Rightarrow> Inl e
                     | Inr q \<Rightarrow>
                         Inr [[Text ''Testing'', Whole size', Text ''locations...''],
                              [Text ''Brute Force: Distance ='', shown_bf],
                              [Text ''Nearest Neighbor: Distance ='', Fixed 2 dist_nn],
                              [Text ''Approximation Quality:'', format_ratio 1 q,
                               Text ''% of optimal'']]))))"

definition time_brute_force ::
    "(rat \<Rightarrow> pyfloat) \<Rightarrow> (nat \<Rightarrow> rat) \<Rightarrow> nat \<Rightarrow> rat list list \<Rightarrow> rat \<Rightarrow> py_error + field list" where
  "time_brute_force rnd clock size' distances elapsed =
     (if size' = 0 then Inl ValueError
      else
        let num_routes = fact (size' - 1) in
        case tsp_brute_force rnd clock distances 60 of
          Inl e \<Rightarrow> Inl e
        | Inr (route, distance) \<Rightarrow>
            if route = None
            then Inr [Whole size', Whole num_routes, Fixed 3 (Finite elapsed), Text ''N/A'',
                      Text ''TIMEOUT'']
            else (case format_f 2 distance of
                    Inl e \<Rightarrow> Inl e
                  | Inr shown \<Rightarrow>
                      Inr [Whole size', Whole num_routes, Fixed 3 (Finite elapsed), shown,
                           Text ''Complete'']))"

definition compare_all_approaches ::
    "(rat \<Rightarrow> pyfloat) \<Rightarrow> (nat \<Rightarrow> rat) \<Rightarrow> nat \<Rightarrow> rat list list \<Rightarrow> rat \<Rightarrow> rat \<Rightarrow>
     py_error + field list" where
  "compare_all_approaches rnd clock size' distances time_bf time_nn =
     (case tsp_brute_force rnd clock distances 60 of
        Inl e \<Rightarrow> Inl e
      | Inr (route_bf, dist_bf) \<Rightarrow>
          (case tsp_nearest_neighbor rnd distances 0 of
             Inl e \<Rightarrow> Inl e
           | Inr (route_nn, dist_nn) \<Rightarrow>
               if route_bf = None
               then Inr [Whole size', Text ''TIMEOUT'', Fixed 2 dist_nn, Text ''N/A'',
                         Text ''TIMEOUT'', Fixed 6 (Finite time_nn)]
               else (case quality rnd dist_nn dist_bf of
                       Inl e \<Rightarrow> Inl e
                     | Inr q \<Rightarrow>
                         (case format_f 2 dist_bf of
                            Inl e \<Rightarrow> Inl e
                          | Inr shown_bf \<Rightarrow>
                              Inr [Whole size', shown_bf, Fixed 2 dist_nn,
                                   format_ratio 1 q, Fixed 3 (Finite time_bf),
                                   Fixed 6 (Finite time_nn)]))))"

section \<open>Notions of the specification\<close>

text \<open>A square matrix: every row is as long as the list of rows.\<close>

definition square :: "rat list list \<Rightarrow> bool" where
  "square distances = (\<forall>row \<in> set distances. length row = length distances)"

text \<open>
  The sum of \<^verbatim>\<open>distances[route[i]][route[i+1]]\<close> over the consecutive elements of a
  route, added to 0 one after the other in the arithmetic \<open>rnd\<close>.
\<close>

definition edge_sum :: "(rat \<Rightarrow> pyfloat) \<Rightarrow> rat list list \<Rightarrow> nat list \<Rightarrow> pyfloat" where
  "edge_sum rnd distances route =
     foldl (\<lambda>acc i. add rnd acc (distances ! (route ! i) ! (route ! (i + 1))))
       (Finite 0) [0..<length route - 1]"

text \<open>The recomputed distance of a returned route: its edges, then the closing edge.\<close>

definition recomputed_distance :: "(rat \<Rightarrow> pyfloat) \<Rightarrow> rat list list \<Rightarrow> nat list \<Rightarrow> pyfloat" where
  "recomputed_distance rnd distances route =
     add rnd (edge_sum rnd distances route)
       (distances ! (route ! (length route - 1)) ! (route ! 0))"

text \<open>
  The cost of the closed tour \<open>0 \<rightarrow> perm[0] \<rightarrow> \<dots> \<rightarrow> perm[N-2] \<rightarrow> 0\<close> in the arithmetic
  \<open>rnd\<close>; \<open>tour_cost exact\<close> is the sum of its edge weights.
\<close>

definition tour_cost :: "(rat \<Rightarrow> pyfloat) \<Rightarrow> rat list list \<Rightarrow> nat list \<Rightarrow> pyfloat" where
  "tour_cost rnd distances perm = edge_sum rnd distances ([0] @ perm @ [0])"

text \<open>The orderings of the non-start locations \<open>1..N-1\<close>.\<close>

definition tours :: "nat \<Rightarrow> nat list set" where
  "tours n = {perm. mset perm = mset [1..<n]}"

text \<open>The check of the timeout at the head of iteration \<open>k\<close> succeeds.\<close>

definition expired :: "(nat \<Rightarrow> rat) \<Rightarrow> rat \<Rightarrow> nat \<Rightarrow> bool" where
  "expired clock timeout k = (clock (Suc k) - clock 0 > timeout)"

section \<open>Auxiliary notions\<close>

text \<open>The cost of a path added to a running sum, edge by edge.\<close>

fun path_cost :: "(rat \<Rightarrow> pyfloat) \<Rightarrow> rat list list \<Rightarrow> pyfloat \<Rightarrow> nat list \<Rightarrow> pyfloat" where
  "path_cost rnd d acc (a # b # rest) = path_cost rnd d (add rnd acc (d ! a ! b)) (b # rest)"
| "path_cost rnd d acc rest = acc"

text \<open>One update of the recorded best by a permutation of cost \<open>c perm\<close>.\<close>

fun improve :: "nat \<Rightarrow> (nat list \<Rightarrow> pyfloat) \<Rightarrow> pyfloat \<times> nat list option \<Rightarrow> nat list \<Rightarrow>
    pyfloat \<times> nat list option" where
  "improve start c (best_distance, best_route) perm =
     (if c perm < best_distance then (c perm, Some (start # perm))
      else (best_distance, best_route))"

text \<open>
  Clocks for the examples: one that never advances, one that reads 61 time-units after
  the start at every check, one whose second check, after one route has been recorded, is
  late, and one that advances by one time-unit at every reading.
\<close>

definition still_clock :: "nat \<Rightarrow> rat" where
  "still_clock k = 0"

definition late_clock :: "nat \<Rightarrow> rat" where
  "late_clock k = (if k = 0 then 0 else 61)"

definition second_check_late :: "nat \<Rightarrow> rat" where
  "second_check_late k = (if k < 2 then 0 else 61)"

definition ticking_clock :: "nat \<Rightarrow> rat" where
  "ticking_clock k = of_nat k"

text \<open>Three locations with the two orderings of \<open>1, 2\<close> at the same cost.\<close>

definition example3 :: "rat list list" where
  "example3 = [[0, 1, 2], [1, 0, 4], [2, 4, 0]]"

text \<open>
  The double that \<^verbatim>\<open>json.load\<close> stores for a decimal literal, and the symmetric matrix
  of the literals \<^verbatim>\<open>0.1\<close>, \<^verbatim>\<open>0.2\<close> and \<^verbatim>\<open>0.3\<close>: three locations on a line, at
  \<^verbatim>\<open>0.0\<close>, \<^verbatim>\<open>0.1\<close> and \<^verbatim>\<open>0.3\<close>.
\<close>

definition double_of :: "rat \<Rightarrow> rat" where
  "double_of x = (case round_double x of Finite y \<Rightarrow> y | Infinity \<Rightarrow> 0 | NegInfinity \<Rightarrow> 0)"

definition example_floats :: "rat list list" where
  "example_floats =
     map (map double_of) [[0, 1 / 10, 3 / 10], [1 / 10, 0, 1 / 5], [3 / 10, 1 / 5, 0]]"

text \<open>Two locations, half the range of the doubles apart.\<close>

definition half_range :: rat where
  "half_range = 2 ^ 1023"

definition example_far :: "rat list list" where
  "example_far = [[0, half_range], [half_range, 0]]"

section \<open>Lemmas about the numbers\<close>

lemma le_Infinity: "x \<le> Infinity"
  by (cases x) simp_all

lemma less_Infinity: "x < Infinity \<longleftrightarrow> x \<noteq> Infinity"
  by (cases x) (simp_all add: less_pyfloat_def)

lemma Infinity_le: "Infinity \<le> x \<longleftrightarrow> x = Infinity"
  by (cases x) simp_all

lemma Finite_le: "Finite a \<le> Finite b \<longleftrightarrow> a \<le> b"
  by simp

lemma Finite_less: "Finite a < Finite b \<longleftrightarrow> a < b"
  by (auto simp: less_pyfloat_def)

lemma add_exact: "add exact (Finite a) w = Finite (a + w)"
  by (simp add: exact_def)

section \<open>Lemmas about the loops\<close>

subsection \<open>Costing a route\<close>

lemma dist_at_square:
  "square d \<Longrightarrow> i < length d \<Longrightarrow> j < length d \<Longrightarrow> dist_at d i j = Inr (d ! i ! j)"
  by (simp add: dist_at_def getitem_def square_def)

lemma distance_loop_sum:
  assumes "square d" and "\<forall>i \<in> set js. r ! i < length d \<and> r ! (i + 1) < length d"
  shows "distance_loop rnd d r js acc =
     Inr (foldl (\<lambda>acc i. add rnd acc (d ! (r ! i) ! (r ! (i + 1)))) acc js)"
  using assms(2)
proof (induction js arbitrary: acc)
  case Nil
  then show ?case by simp
next
  case (Cons j js)
  then show ?case by (simp add: dist_at_square [OF assms(1)])
qed

lemma route_distance_edge_sum:
  assumes "square d" and "\<forall>x \<in> set r. x < length d"
  shows "route_distance rnd d r = Inr (edge_sum rnd d r)"
proof -
  have "\<forall>i \<in> set [0..<length r - 1]. r ! i < length d \<and> r ! (i + 1) < length d"
    using assms(2) by (auto simp: all_set_conv_all_nth)
  then show ?thesis
    unfolding route_distance_def edge_sum_def
    by (simp add: distance_loop_sum [OF assms(1)])
qed

lemma foldl_edges_path_cost:
  "foldl (\<lambda>acc i. add rnd acc (d ! (r ! i) ! (r ! (i + 1)))) acc [0..<length r - 1] =
   path_cost rnd d acc r"
proof (induction rnd d acc r rule: path_cost.induct)
  case (1 rnd d acc a b rest)
  have "[0..<Suc (length rest)] = 0 # map Suc [0..<length rest]"
    by (simp add: upt_conv_Cons map_Suc_upt del: upt_Suc)
  then show ?case
    using 1 by (simp add: foldl_map del: upt_Suc)
qed simp_all

lemma edge_sum_path_cost: "edge_sum rnd d r = path_cost rnd d (Finite 0) r"
  unfolding edge_sum_def by (rule foldl_edges_path_cost)

lemma path_cost_snoc:
  "r \<noteq> [] \<Longrightarrow> path_cost rnd d acc (r @ [y]) = add rnd (path_cost rnd d acc r) (d ! (last r) ! y)"
  by (induction rnd d acc r rule: path_cost.induct) simp_all

lemma recomputed_path_cost:
  "r \<noteq> [] \<Longrightarrow>
   recomputed_distance rnd d r = add rnd (path_cost rnd d (Finite 0) r) (d ! (last r) ! (hd r))"
  by (simp add: recomputed_distance_def edge_sum_path_cost last_conv_nth hd_conv_nth)

lemma tour_cost_recomputed: "tour_cost rnd d p = recomputed_distance rnd d (0 # p)"
proof -
  have "tour_cost rnd d p = path_cost rnd d (Finite 0) ((0 # p) @ [0])"
    by (simp add: tour_cost_def edge_sum_path_cost)
  also have "\<dots> = add rnd (path_cost rnd d (Finite 0) (0 # p)) (d ! (last (0 # p)) ! 0)"
    by (rule path_cost_snoc) simp
  finally show ?thesis
    by (simp add: recomputed_path_cost)
qed

subsection \<open>The permutations\<close>

lemma mset_drop_nth:
  "i < length xs \<Longrightarrow> add_mset (xs ! i) (mset (take i xs @ drop (Suc i) xs)) = mset xs"
  by (metis add_mset_add_single id_take_nth_drop mset.simps(2) mset_append union_mset_add_mset_right append_Cons append_Nil)

lemma set_permutations: "set (permutations xs) = {p. mset p = mset xs}"
proof (induction xs rule: permutations.induct)
  case (1 xs)
  show ?case
  proof (cases "xs = []")
    case True
    then show ?thesis by (simp add: permutations.simps)
  next
    case False
    have IH: "\<And>i. i < length xs \<Longrightarrow>
        set (permutations (take i xs @ drop (Suc i) xs)) = {p. mset p = mset (take i xs @ drop (Suc i) xs)}"
      using 1 False by simp
    show ?thesis
    proof (intro set_eqI iffI)
      fix p assume "p \<in> set (permutations xs)"
      then obtain i q where i: "i < length xs" and q: "q \<in> set (permutations (take i xs @ drop (Suc i) xs))"
        and p: "p = xs ! i # q"
        using False by (subst (asm) permutations.simps) auto
      from q IH [OF i] have "mset q = mset (take i xs @ drop (Suc i) xs)" by simp
      with p mset_drop_nth [OF i] show "p \<in> {p. mset p = mset xs}" by simp
    next
      fix p assume "p \<in> {p. mset p = mset xs}"
      then have mp: "mset p = mset xs" by simp
      with False obtain y q where p: "p = y # q" by (cases p) auto
      from mp p have "y \<in> set xs" by (metis list.set_intros(1) mset_eq_setD)
      then obtain i where i: "i < length xs" and y: "xs ! i = y" by (auto simp: in_set_conv_nth)
      from mset_drop_nth [OF i] mp p y have "mset q = mset (take i xs @ drop (Suc i) xs)"
        by (metis add_mset_remove_trivial mset.simps(2))
      with IH [OF i] have "q \<in> set (permutations (take i xs @ drop (Suc i) xs))" by simp
      with i y p False show "p \<in> set (permutations xs)"
        by (subst permutations.simps) (auto intro!: bexI [of _ i])
    qed
  qed
qed


lemma permutations_nonempty: "permutations xs \<noteq> []"
proof -
  have "xs \<in> set (permutations xs)" by (simp add: set_permutations)
  then show ?thesis by auto
qed

lemma other_locations: "filter (\<lambda>i. i \<noteq> 0) [0..<n] = [1..<n]"
proof (cases n)
  case 0
  then show ?thesis by simp
next
  case (Suc m)
  have "filter (\<lambda>i. i \<noteq> 0) [Suc 0..<Suc m] = [Suc 0..<Suc m]"
    by (rule filter_True) auto
  with Suc show ?thesis by (simp add: upt_conv_Cons del: upt_Suc)
qed

subsection \<open>The loop of the brute force\<close>

lemma bf_loop_timeout_now:
  "expired clock timeout rc \<Longrightarrow>
   bf_loop rnd clock d timeout s (p # ps) (bd, br, rc) = Inr (None, None)"
  by (simp add: expired_def)

lemma bf_loop_fold:
  assumes "\<forall>p \<in> set ps. route_distance rnd d ([s] @ p @ [s]) = Inr (c p)"
  shows "bf_loop rnd clock d timeout s ps (bd, br, rc) =
     (if \<exists>k<length ps. expired clock timeout (rc + k) then Inr (None, None)
      else Inr (snd (foldl (improve s c) (bd, br) ps), Some (fst (foldl (improve s c) (bd, br) ps))))"
  using assms
proof (induction ps arbitrary: bd br rc)
  case Nil
  then show ?case by simp
next
  case (Cons p ps)
  have ex: "(\<exists>k<length (p # ps). expired clock timeout (rc + k)) \<longleftrightarrow>
      expired clock timeout rc \<or> (\<exists>k<length ps. expired clock timeout (Suc rc + k))"
    by (simp add: Ex_less_Suc2)
  show ?case
  proof (cases "expired clock timeout rc")
    case True
    then show ?thesis using ex by (simp add: expired_def)
  next
    case False
    have cost: "route_distance rnd d (s # p @ [s]) = Inr (c p)"
      using Cons.prems by simp
    have rest: "\<forall>p \<in> set ps. route_distance rnd d ([s] @ p @ [s]) = Inr (c p)"
      using Cons.prems by simp
    have bl: "butlast (s # p @ [s]) = s # p"
      by (simp add: butlast_append)
    show ?thesis
    proof (cases "c p < bd")
      case True
      then show ?thesis
        using False ex cost bl Cons.IH [OF rest, of "c p" "Some (s # p)" "Suc rc"]
        by (simp add: expired_def Let_def)
    next
      case lf: False
      then show ?thesis
        using False ex cost bl Cons.IH [OF rest, of bd br "Suc rc"]
        by (simp add: expired_def Let_def)
    qed
  qed
qed

lemma find_append_case:
  "find P (xs @ ys) = (case find P xs of None \<Rightarrow> find P ys | Some x \<Rightarrow> Some x)"
  by (induction xs) auto

text \<open>
  What the loop has recorded after the permutations \<open>ps\<close>: a distance that no cost is
  below, and either no route and the initial infinity, or the first permutation of that
  cost, which is then finite.
\<close>

lemma foldl_improve_first_min:
  "\<exists>bd br. foldl (improve s c) (Infinity, None) ps = (bd, br) \<and> (\<forall>q \<in> set ps. bd \<le> c q) \<and>
     (bd = Infinity \<and> br = None \<or>
      (\<exists>p. br = Some (s # p) \<and> c p = bd \<and> bd < Infinity \<and> find (\<lambda>q. c q = bd) ps = Some p))"
proof (induction ps rule: rev_induct)
  case Nil
  then show ?case by simp
next
  case (snoc q ps)
  then obtain bd br where st: "foldl (improve s c) (Infinity, None) ps = (bd, br)"
    and mi: "\<forall>x \<in> set ps. bd \<le> c x"
    and alt: "bd = Infinity \<and> br = None \<or>
      (\<exists>p. br = Some (s # p) \<and> c p = bd \<and> bd < Infinity \<and> find (\<lambda>x. c x = bd) ps = Some p)"
    by blast
  show ?case
  proof (cases "c q < bd")
    case True
    have "find (\<lambda>x. c x = c q) ps = None"
      using mi True by (auto simp: find_None_iff)
    then have "find (\<lambda>x. c x = c q) (ps @ [q]) = Some q"
      by (simp add: find_append_case)
    moreover have "\<forall>x \<in> set (ps @ [q]). c q \<le> c x"
      using mi True by auto
    moreover have "foldl (improve s c) (Infinity, None) (ps @ [q]) = (c q, Some (s # q))"
      using st True by simp
    moreover have "c q < Infinity"
      using True le_Infinity [of bd] by simp
    ultimately show ?thesis by blast
  next
    case False
    have f: "foldl (improve s c) (Infinity, None) (ps @ [q]) = (bd, br)"
      using st False by simp
    have m: "\<forall>x \<in> set (ps @ [q]). bd \<le> c x"
      using mi False by auto
    from alt show ?thesis
    proof
      assume "bd = Infinity \<and> br = None"
      with f m show ?thesis by blast
    next
      assume "\<exists>p. br = Some (s # p) \<and> c p = bd \<and> bd < Infinity \<and> find (\<lambda>x. c x = bd) ps = Some p"
      then obtain p where "br = Some (s # p)" and "c p = bd" and "bd < Infinity"
        and "find (\<lambda>x. c x = bd) ps = Some p" by blast
      moreover from this have "find (\<lambda>x. c x = bd) (ps @ [q]) = Some p"
        by (simp add: find_append_case)
      ultimately show ?thesis using f m by blast
    qed
  qed
qed

lemma tours_in_range: "p \<in> tours n \<Longrightarrow> x \<in> set p \<Longrightarrow> 0 < x \<and> x < n"
proof -
  assume "p \<in> tours n" and x: "x \<in> set p"
  then have "set p = set [1..<n]" unfolding tours_def by (metis mem_Collect_eq mset_eq_setD)
  with x show ?thesis by auto
qed

lemma set_permutations_tours: "set (permutations [1..<n]) = tours n"
  by (simp add: set_permutations tours_def)

lemma route_distance_tour:
  assumes "square d" and "0 < length d" and "p \<in> tours (length d)"
  shows "route_distance rnd d ([0] @ p @ [0]) = Inr (tour_cost rnd d p)"
proof -
  have "\<forall>x \<in> set ([0] @ p @ [0]). x < length d"
    using assms(2) tours_in_range [OF assms(3)] by auto
  then show ?thesis
    unfolding tour_cost_def by (rule route_distance_edge_sum [OF assms(1)])
qed

lemma tsp_brute_force_fold:
  assumes "square d" and "0 < length d"
  shows "tsp_brute_force rnd clock d timeout =
     (if \<exists>k<length (permutations [1..<length d]). expired clock timeout k then Inr (None, None)
      else Inr (snd (foldl (improve 0 (tour_cost rnd d)) (Infinity, None) (permutations [1..<length d])),
                Some (fst (foldl (improve 0 (tour_cost rnd d)) (Infinity, None)
                  (permutations [1..<length d])))))"
proof -
  have "\<forall>p \<in> set (permutations [1..<length d]).
      route_distance rnd d ([0] @ p @ [0]) = Inr (tour_cost rnd d p)"
    using route_distance_tour [OF assms] by (simp only: set_permutations_tours) blast
  from bf_loop_fold [OF this, of clock timeout Infinity None 0] show ?thesis
    unfolding tsp_brute_force_def Let_def other_locations by (simp only: add_0)
qed

lemma length_permutations: "length (permutations xs) = fact (length xs)"
proof (induction xs rule: permutations.induct)
  case (1 xs)
  show ?case
  proof (cases "xs = []")
    case True
    then show ?thesis by (simp add: permutations.simps)
  next
    case False
    then obtain m where m: "length xs = Suc m" by (cases xs) auto
    have "\<And>i. i \<in> set [0..<length xs] \<Longrightarrow>
        length (permutations (take i xs @ drop (Suc i) xs)) = fact m"
      using 1 False m by auto
    then have "map (\<lambda>i. length (permutations (take i xs @ drop (Suc i) xs))) [0..<length xs]
        = map (\<lambda>i. fact m) [0..<length xs]"
      by (intro map_cong) auto
    then have "sum_list (map (\<lambda>i. length (permutations (take i xs @ drop (Suc i) xs))) [0..<length xs])
        = Suc m * fact m"
      by (simp only: sum_list_triv length_upt m) simp
    moreover have "length (permutations xs)
        = sum_list (map (\<lambda>i. length (permutations (take i xs @ drop (Suc i) xs))) [0..<length xs])"
      using False by (subst permutations.simps) (simp add: length_concat comp_def del: upt_Suc)
    ultimately show ?thesis using m by simp
  qed
qed

subsection \<open>Complete runs of the brute force\<close>

lemma finite_tours: "finite (tours n)"
  by (metis List.finite_set set_permutations_tours)

lemma tours_nonempty: "[1..<n] \<in> tours n"
  by (simp add: tours_def)

lemma mset_start_tour: "0 < n \<Longrightarrow> p \<in> tours n \<Longrightarrow> mset (0 # p) = mset [0..<n]"
  by (simp add: tours_def upt_conv_Cons del: upt_Suc)

text \<open>
  A run that returns a distance has met no timeout. Its distance is the least cost of
  a tour; its route is missing when that cost is infinite, and otherwise the first
  permutation of that cost behind the start.
\<close>

lemma tsp_brute_force_returned:
  assumes "square d" and "0 < length d"
    and "tsp_brute_force rnd clock d timeout = Inr (r, Some best)"
  shows "(\<forall>q \<in> tours (length d). best \<le> tour_cost rnd d q) \<and>
     (\<exists>q \<in> tours (length d). best = tour_cost rnd d q) \<and>
     (r = None \<longrightarrow> best = Infinity) \<and>
     (\<forall>route. r = Some route \<longrightarrow>
        (\<exists>p \<in> tours (length d). route = 0 # p \<and> tour_cost rnd d p = best \<and> best < Infinity \<and>
           find (\<lambda>q. tour_cost rnd d q = best) (permutations [1..<length d]) = Some p))"
proof -
  let ?ps = "permutations [1..<length d]"
  let ?c = "tour_cost rnd d"
  from foldl_improve_first_min [of 0 ?c ?ps] obtain bd br
    where st: "foldl (improve 0 ?c) (Infinity, None) ?ps = (bd, br)"
      and mi: "\<forall>q \<in> set ?ps. bd \<le> ?c q"
      and alt: "bd = Infinity \<and> br = None \<or>
        (\<exists>p. br = Some (0 # p) \<and> ?c p = bd \<and> bd < Infinity \<and> find (\<lambda>q. ?c q = bd) ?ps = Some p)"
    by blast
  have "\<not> (\<exists>k<length ?ps. expired clock timeout k)"
    using assms(3) by (auto simp: tsp_brute_force_fold [OF assms(1,2)] split: if_splits)
  then have "tsp_brute_force rnd clock d timeout = Inr (br, Some bd)"
    by (simp only: tsp_brute_force_fold [OF assms(1,2)] if_False st fst_conv snd_conv)
  with assms(3) have r: "r = br" and b: "best = bd" by simp_all
  have least: "\<forall>q \<in> tours (length d). best \<le> ?c q"
    using mi b by (simp only: set_permutations_tours)
  have attained: "\<exists>q \<in> tours (length d). best = ?c q"
    using alt
  proof
    assume none: "bd = Infinity \<and> br = None"
    have ne: "[1..<length d] \<in> tours (length d)" by (rule tours_nonempty)
    with least have "best \<le> ?c [1..<length d]" by blast
    with none b have "best = ?c [1..<length d]" by (simp only: Infinity_le)
    with ne show ?thesis by blast
  next
    assume "\<exists>p. br = Some (0 # p) \<and> ?c p = bd \<and> bd < Infinity \<and> find (\<lambda>q. ?c q = bd) ?ps = Some p"
    then obtain p where "?c p = bd" and "find (\<lambda>q. ?c q = bd) ?ps = Some p" by blast
    then have "p \<in> set ?ps" by (auto simp: find_Some_iff)
    then have "p \<in> tours (length d)" by (simp only: set_permutations_tours)
    with \<open>?c p = bd\<close> b show ?thesis by auto
  qed
  have none: "r = None \<longrightarrow> best = Infinity"
    using alt r b by auto
  have some: "\<forall>route. r = Some route \<longrightarrow>
        (\<exists>p \<in> tours (length d). route = 0 # p \<and> ?c p = best \<and> best < Infinity \<and>
           find (\<lambda>q. ?c q = best) ?ps = Some p)"
  proof (intro allI impI)
    fix route assume "r = Some route"
    with alt r obtain p where br: "br = Some (0 # p)" and cp: "?c p = bd" and fin: "bd < Infinity"
      and fi: "find (\<lambda>q. ?c q = bd) ?ps = Some p" by auto
    from fi have "p \<in> set ?ps" by (auto simp: find_Some_iff)
    then have "p \<in> tours (length d)" by (simp only: set_permutations_tours)
    with br cp fin fi r b \<open>r = Some route\<close>
    show "\<exists>p \<in> tours (length d). route = 0 # p \<and> ?c p = best \<and> best < Infinity \<and>
           find (\<lambda>q. ?c q = best) ?ps = Some p" by auto
  qed
  from least attained none some show ?thesis by blast
qed

subsection \<open>The loop of the nearest neighbour\<close>

lemma min_loop_member:
  "\<forall>x \<in> set xs. key x = Inr (f x) \<Longrightarrow> \<exists>m. min_loop key xs b bk = Inr m \<and> m \<in> set (b # xs)"
proof (induction xs arbitrary: b bk)
  case Nil
  then show ?case by simp
next
  case (Cons x xs)
  then have rest: "\<forall>y \<in> set xs. key y = Inr (f y)" and kx: "key x = Inr (f x)" by simp_all
  show ?case
  proof (cases "f x < bk")
    case True
    with Cons.IH [OF rest, of x "f x"] kx show ?thesis by auto
  next
    case False
    with Cons.IH [OF rest, of b bk] kx show ?thesis by auto
  qed
qed

lemma py_min_member:
  "\<forall>x \<in> set xs. key x = Inr (f x) \<Longrightarrow> xs \<noteq> [] \<Longrightarrow> \<exists>m. py_min key xs = Inr m \<and> m \<in> set xs"
proof (cases xs)
  case Nil
  assume "xs \<noteq> []"
  with Nil show ?thesis by simp
next
  case (Cons x rest)
  assume "\<forall>x \<in> set xs. key x = Inr (f x)"
  with Cons have "\<forall>y \<in> set rest. key y = Inr (f y)" and "key x = Inr (f x)" by simp_all
  with min_loop_member [of rest key f x "f x"] Cons show ?thesis
    by (auto simp: py_min_def)
qed

lemma nn_loop_result:
  assumes "square d"
  shows "current < length d \<Longrightarrow> \<forall>x \<in> set u. x < length d \<Longrightarrow>
     \<exists>q. nn_loop rnd d u current route acc =
            Inr (last (current # q), route @ q, path_cost rnd d acc (current # q)) \<and>
         mset q = mset u"
proof (induction "length u" arbitrary: u current route acc rule: less_induct)
  case less
  show ?case
  proof (cases "u = []")
    case True
    then show ?thesis by (simp add: nn_loop.simps)
  next
    case False
    have "\<forall>x \<in> set u. dist_at d current x = Inr (d ! current ! x)"
      using less.prems dist_at_square [OF assms] by simp
    from py_min_member [OF this False] obtain m
      where pm: "py_min (\<lambda>x. dist_at d current x) u = Inr m" and mu: "m \<in> set u" by blast
    have m: "m < length d" using mu less.prems by simp
    have dm: "dist_at d current m = Inr (d ! current ! m)"
      using less.prems m dist_at_square [OF assms] by simp
    have rm: "set_remove m u = Inr (remove1 m u)" using mu by (simp add: set_remove_def)
    have shorter: "length (remove1 m u) < length u"
      by (rule set_remove_shorter [OF rm])
    have sub: "\<forall>x \<in> set (remove1 m u). x < length d"
      using less.prems(2) by (metis notin_set_remove1)
    from less.hyps [OF shorter m sub, of "route @ [m]" "add rnd acc (d ! current ! m)"]
    obtain q where q: "nn_loop rnd d (remove1 m u) m (route @ [m]) (add rnd acc (d ! current ! m)) =
          Inr (last (m # q), (route @ [m]) @ q,
               path_cost rnd d (add rnd acc (d ! current ! m)) (m # q))"
      and mq: "mset q = mset (remove1 m u)" by blast
    have "nn_loop rnd d u current route acc =
        Inr (last (current # m # q), route @ m # q, path_cost rnd d acc (current # m # q))"
      using False pm dm rm q by (subst nn_loop.simps) simp
    moreover have "mset (m # q) = mset u" using mq mu by simp
    ultimately show ?thesis by blast
  qed
qed

lemma tsp_nearest_neighbor_result:
  assumes "square d" and "0 \<le> start" and "start < int (length d)"
  shows "\<exists>q. tsp_nearest_neighbor rnd d start =
            Inr (nat start # q, recomputed_distance rnd d (nat start # q)) \<and>
         mset (nat start # q) = mset [0..<length d]"
proof -
  let ?s = "nat start" and ?n = "length d"
  have s: "?s < ?n" using assms(2,3) by simp
  then have rm: "set_remove ?s [0..<?n] = Inr (remove1 ?s [0..<?n])"
    by (simp add: set_remove_def)
  have sub: "\<forall>x \<in> set (remove1 ?s [0..<?n]). x < ?n"
    by (metis notin_set_remove1 atLeastLessThan_iff set_upt)
  from nn_loop_result [OF assms(1) s sub, of rnd "[?s]" "Finite 0"]
  obtain q where q: "nn_loop rnd d (remove1 ?s [0..<?n]) ?s [?s] (Finite 0) =
        Inr (last (?s # q), [?s] @ q, path_cost rnd d (Finite 0) (?s # q))"
    and mq: "mset q = mset (remove1 ?s [0..<?n])" by blast
  have "set (?s # q) = set [0..<?n]"
    using mq s by (metis insert_DiffM mset.simps(2) mset_remove1 mset_eq_setD set_mset_mset set_upt atLeastLessThan_iff le0)
  then have "last (?s # q) < ?n"
    by (metis last_in_set list.discI atLeastLessThan_iff set_upt)
  then have cl: "dist_at d (last (?s # q)) ?s = Inr (d ! last (?s # q) ! ?s)"
    using s dist_at_square [OF assms(1)] by simp
  have "tsp_nearest_neighbor rnd d start =
      Inr (?s # q, add rnd (path_cost rnd d (Finite 0) (?s # q)) (d ! last (?s # q) ! ?s))"
    using assms(2,3) rm q cl by (simp add: tsp_nearest_neighbor_def)
  moreover have "recomputed_distance rnd d (?s # q) =
      add rnd (path_cost rnd d (Finite 0) (?s # q)) (d ! last (?s # q) ! ?s)"
    using recomputed_path_cost [of "?s # q" rnd d] by simp
  moreover have "mset (?s # q) = mset [0..<?n]"
    using mq s by simp
  ultimately show ?thesis by simp
qed

text \<open>The nearest-neighbour route from 0 is one of the tours the brute force enumerates.\<close>

lemma nearest_neighbor_tour:
  assumes "square d" and "0 < length d" and "tsp_nearest_neighbor rnd d 0 = Inr (route, td)"
  shows "\<exists>q \<in> tours (length d). route = 0 # q \<and> td = tour_cost rnd d q"
proof -
  have "(0::int) < int (length d)" using assms(2) by simp
  from tsp_nearest_neighbor_result [OF assms(1) order_refl this, of rnd] assms(3)
  obtain q where r: "route = 0 # q" and t: "td = recomputed_distance rnd d (0 # q)"
    and m: "mset (0 # q) = mset [0..<length d]" by auto
  have u: "[0..<length d] = 0 # [1..<length d]"
    using assms(2) by (simp add: upt_conv_Cons)
  from m have "add_mset 0 (mset q) = add_mset 0 (mset [1..<length d])"
    by (simp only: u mset.simps)
  then have "mset q = mset [1..<length d]"
    by (simp only: add_mset_add_mset_same_iff)
  then have "q \<in> tours (length d)" by (simp add: tours_def)
  with r t show ?thesis by (auto simp: tour_cost_recomputed)
qed

section \<open>Lemmas about rounding\<close>

lemma below_one:
  fixes x p :: rat
  assumes "x * p < 1" and "1 \<le> p"
  shows "x < 1"
proof (rule ccontr)
  assume "\<not> x < 1"
  then have "1 \<le> x" by simp
  with assms(2) have "1 * 1 \<le> x * p" by (intro mult_mono) auto
  with assms(1) show False by simp
qed

lemma halvings_exact: "2 ^ n \<le> x \<Longrightarrow> x < 2 ^ Suc n \<Longrightarrow> n \<le> k \<Longrightarrow> halvings k x = n"
proof (induction k arbitrary: x n)
  case 0
  then show ?case by simp
next
  case (Suc k)
  show ?case
  proof (cases n)
    case 0
    with Suc.prems show ?thesis by simp
  next
    case (Suc m)
    have p: "(1::rat) \<le> 2 ^ m" by simp
    from Suc Suc.prems have lo: "2 * 2 ^ m \<le> x" and hi: "x < 4 * 2 ^ m" and mk: "m \<le> k"
      by simp_all
    from lo p have "\<not> x < 2" by linarith
    moreover from lo have "2 ^ m \<le> x / 2" by simp
    moreover from hi have "x / 2 < 2 ^ Suc m" by simp
    ultimately show ?thesis using Suc.IH [of m "x / 2"] Suc mk by simp
  qed
qed

lemma doublings_exact:
  "1 \<le> x * 2 ^ n \<Longrightarrow> n = 0 \<or> x * 2 ^ (n - 1) < 1 \<Longrightarrow> n \<le> k \<Longrightarrow> doublings k x = n"
proof (induction k arbitrary: x n)
  case 0
  then show ?case by simp
next
  case (Suc k)
  show ?case
  proof (cases n)
    case 0
    with Suc.prems show ?thesis by simp
  next
    case (Suc m)
    with Suc.prems have lt: "x * 2 ^ m < 1" by simp
    then have "x < 1" by (rule below_one) simp
    moreover from Suc Suc.prems have "1 \<le> (2 * x) * 2 ^ m" by (simp add: mult.commute mult.left_commute)
    moreover from lt have "m = 0 \<or> (2 * x) * 2 ^ (m - 1) < 1"
      by (cases m) (auto simp: mult.commute mult.left_commute)
    moreover from Suc Suc.prems have "m \<le> k" by simp
    ultimately show ?thesis using Suc.IH [of "2 * x" m] Suc by simp
  qed
qed

lemma round_half_even_near: "\<bar>q - of_int m\<bar> < 1 / 2 \<Longrightarrow> round_half_even q = m"
proof -
  assume "\<bar>q - of_int m\<bar> < 1 / 2"
  then have up: "q - of_int m < 1 / 2" and down: "of_int m - q < 1 / 2"
    by linarith+
  show ?thesis
  proof (cases "of_int m \<le> q")
    case True
    have "\<lfloor>q\<rfloor> = m"
    proof (rule floor_unique)
      show "of_int m \<le> q" by (rule True)
      show "q < of_int m + 1" using up by linarith
    qed
    with up show ?thesis by (simp add: round_half_even_def Let_def)
  next
    case False
    have f: "\<lfloor>q\<rfloor> = m - 1"
    proof (rule floor_unique)
      show "of_int (m - 1) \<le> q" using down by simp
      show "q < of_int (m - 1) + 1" using False by simp
    qed
    have "1 / 2 < q - of_int (m - 1)" using down by simp
    with f show ?thesis by (simp add: round_half_even_def Let_def)
  qed
qed

lemma round_half_even_tie: "q = of_int m + 1 / 2 \<Longrightarrow> round_half_even q = (if even m then m else m + 1)"
proof -
  assume q: "q = of_int m + 1 / 2"
  then have "\<lfloor>q\<rfloor> = m" by (intro floor_unique) simp_all
  with q show ?thesis by (simp add: round_half_even_def Let_def)
qed

text \<open>Rounding a number below 1 whose binary exponent is \<open>- n\<close>, and one from 1 on.\<close>

lemma round_double_below_one:
  assumes "0 < x" and "1 \<le> x * 2 ^ n" and "x * 2 ^ (n - 1) < 1" and "0 < n" and "n \<le> 1022"
  shows "round_double x = Finite (of_int (round_half_even (x * 2 ^ (n + 52))) / 2 ^ (n + 52))"
proof -
  from assms(3) have x1: "x < 1" by (rule below_one) simp
  then have "\<not> 1 \<le> x" by simp
  moreover have "doublings 1022 x = n"
    using assms by (intro doublings_exact) auto
  ultimately have e: "exponent x = - int n" by (simp add: exponent_def)
  have u: "two_pow (exponent x - 52) = 1 / 2 ^ (n + 52)"
    by (simp add: e two_pow_def nat_add_distrib)
  have "\<not> 2 ^ 1024 - 2 ^ 970 \<le> x" using x1 by simp
  with assms(1) show ?thesis
    by (simp add: round_double_def round_magnitude_def u Let_def)
qed

lemma round_double_from_one:
  assumes "2 ^ n \<le> x" and "x < 2 ^ Suc n" and "52 \<le> n" and "x < 2 ^ 1024 - 2 ^ 970"
  shows "round_double x = Finite (of_int (round_half_even (x / 2 ^ (n - 52))) * 2 ^ (n - 52))"
proof -
  have p: "(1::rat) \<le> 2 ^ n" by simp
  with assms(1) have x1: "1 \<le> x" by linarith
  have "n \<le> 1024"
  proof (rule ccontr)
    assume "\<not> n \<le> 1024"
    then have "(2::rat) ^ 1024 \<le> 2 ^ n" by (intro power_increasing) simp_all
    with assms(1,4) show False by simp
  qed
  then have "halvings 1024 x = n"
    using assms(1,2) by (intro halvings_exact)
  with x1 have e: "exponent x = int n" by (simp add: exponent_def)
  have u: "two_pow (exponent x - 52) = 2 ^ (n - 52)"
    using assms(3) by (simp add: e two_pow_def nat_diff_distrib)
  from x1 assms(4) show ?thesis
    by (simp add: round_double_def round_magnitude_def u Let_def)
qed

text \<open>
  Lower bounds: rounding to a double takes no number from 1 on below 1 and none from 100
  on below 100, so the quality ratio of two float distances is at least 100 as well.
\<close>

lemma halvings_lower: "1 \<le> x \<Longrightarrow> 2 ^ halvings k x \<le> x"
proof (induction k arbitrary: x)
  case 0
  then show ?case by simp
next
  case (Suc k)
  show ?case
  proof (cases "x < 2")
    case True
    with Suc.prems show ?thesis by simp
  next
    case False
    then have "1 \<le> x / 2" by simp
    from Suc.IH [OF this] have "2 * 2 ^ halvings k (x / 2) \<le> x" by simp
    with False show ?thesis by simp
  qed
qed

lemma round_half_even_ge: "of_int m \<le> q \<Longrightarrow> m \<le> round_half_even q"
proof -
  assume "of_int m \<le> q"
  then have "m \<le> \<lfloor>q\<rfloor>" by (simp add: le_floor_iff)
  then show ?thesis by (simp add: round_half_even_def Let_def)
qed

lemma two_pow_pos: "0 < two_pow k"
  by (simp add: two_pow_def)

lemma two_pow_scale: "two_pow (int n - 52) * 2 ^ 52 = 2 ^ n"
proof (cases "52 \<le> n")
  case True
  then have "two_pow (int n - 52) = 2 ^ (n - 52)"
    by (simp add: two_pow_def nat_diff_distrib)
  then have "two_pow (int n - 52) * 2 ^ 52 = 2 ^ ((n - 52) + 52)"
    by (simp only: power_add)
  with True show ?thesis by simp
next
  case False
  then have u: "two_pow (int n - 52) = 1 / 2 ^ (52 - n)"
    by (simp add: two_pow_def nat_diff_distrib)
  from False have s: "(2::rat) ^ 52 = 2 ^ (52 - n) * 2 ^ n"
    by (simp only: power_add [symmetric]) simp
  show ?thesis by (subst s) (simp add: u)
qed

text \<open>A number from 1 on is not rounded below the power of two of its binade.\<close>

lemma round_double_ge_binade:
  assumes "1 \<le> x"
  shows "Finite (2 ^ halvings 1024 x) \<le> round_double x"
proof (cases "2 ^ 1024 - 2 ^ 970 \<le> x")
  case True
  with assms show ?thesis by (simp add: round_double_def round_magnitude_def)
next
  case False
  let ?n = "halvings 1024 x"
  let ?u = "two_pow (int ?n - 52)"
  have e: "exponent x = int ?n" using assms by (simp add: exponent_def)
  have "2 ^ ?n \<le> x" using assms by (rule halvings_lower)
  then have "?u * 2 ^ 52 \<le> x" by (simp only: two_pow_scale)
  then have "of_int (2 ^ 52) \<le> x / ?u"
    using two_pow_pos [of "int ?n - 52"] by (simp add: le_divide_eq mult.commute)
  then have "2 ^ 52 \<le> round_half_even (x / ?u)" by (rule round_half_even_ge)
  then have "(2::rat) ^ 52 \<le> of_int (round_half_even (x / ?u))"
    by (metis of_int_le_iff of_int_numeral of_int_power)
  then have "2 ^ 52 * ?u \<le> of_int (round_half_even (x / ?u)) * ?u"
    using two_pow_pos [of "int ?n - 52"] by (intro mult_right_mono) simp_all
  then have "2 ^ ?n \<le> of_int (round_half_even (x / ?u)) * ?u"
    using two_pow_scale [of ?n] by (simp add: mult.commute)
  with assms False show ?thesis
    by (simp add: round_double_def round_magnitude_def e Let_def)
qed

lemma round_double_ge_1: "1 \<le> x \<Longrightarrow> Finite 1 \<le> round_double x"
proof -
  assume x: "1 \<le> x"
  have "Finite 1 \<le> Finite (2 ^ halvings 1024 x)" by simp
  also have "\<dots> \<le> round_double x" using x by (rule round_double_ge_binade)
  finally show ?thesis .
qed

lemma round_double_ge_100: "100 \<le> x \<Longrightarrow> Finite 100 \<le> round_double x"
proof -
  assume x: "100 \<le> x"
  then have x1: "1 \<le> x" by simp
  let ?n = "halvings 1024 x"
  show ?thesis
  proof (cases "(100::rat) \<le> 2 ^ ?n")
    case True
    then have "Finite 100 \<le> Finite (2 ^ ?n)" by simp
    also have "\<dots> \<le> round_double x" using x1 by (rule round_double_ge_binade)
    finally show ?thesis .
  next
    case False
    have n: "?n < 52"
    proof (rule ccontr)
      assume "\<not> ?n < 52"
      then have "(2::rat) ^ 7 \<le> 2 ^ ?n" by (intro power_increasing) simp_all
      with False show False by simp
    qed
    let ?u = "two_pow (int ?n - 52)"
    have u: "?u = 1 / 2 ^ (52 - ?n)"
      using n by (simp add: two_pow_def nat_diff_distrib)
    show ?thesis
    proof (cases "2 ^ 1024 - 2 ^ 970 \<le> x")
      case True
      with x1 show ?thesis by (simp add: round_double_def round_magnitude_def)
    next
      case big: False
      have e: "exponent x = int ?n" using x1 by (simp add: exponent_def)
      have "of_int (100 * 2 ^ (52 - ?n)) \<le> x / ?u"
        using x by (simp add: u)
      then have "100 * 2 ^ (52 - ?n) \<le> round_half_even (x / ?u)" by (rule round_half_even_ge)
      then have "of_int (100 * 2 ^ (52 - ?n)) \<le> (of_int (round_half_even (x / ?u)) :: rat)"
        by (simp only: of_int_le_iff)
      then have "of_int (100 * 2 ^ (52 - ?n)) * ?u \<le> of_int (round_half_even (x / ?u)) * ?u"
        using two_pow_pos [of "int ?n - 52"] by (intro mult_right_mono) simp_all
      then have "100 \<le> of_int (round_half_even (x / ?u)) * ?u"
        by (simp add: u)
      with x1 big show ?thesis
        by (simp add: round_double_def round_magnitude_def e Let_def)
    qed
  qed
qed

lemma quality_double_at_least_100:
  assumes "Finite 0 < d_bf" and "d_bf \<le> d_nn" and "d_bf < Infinity"
  shows "\<exists>q. quality round_double d_nn (Some d_bf) = Inr (Ratio q) \<and> Finite 100 \<le> q"
proof -
  from assms(1,3) obtain b where b: "d_bf = Finite b" and pos: "0 < b"
    by (cases d_bf) (auto simp: less_pyfloat_def)
  show ?thesis
  proof (cases d_nn)
    case NegInfinity
    with assms(2) b show ?thesis by simp
  next
    case Infinity
    with b pos show ?thesis by (simp add: quality_def)
  next
    case (Finite a)
    with assms(2) b have "b \<le> a" by simp
    with pos have "1 \<le> a / b" by (simp add: le_divide_eq_1_pos)
    then have one: "Finite 1 \<le> round_double (a / b)" by (rule round_double_ge_1)
    show ?thesis
    proof (cases "round_double (a / b)")
      case NegInfinity
      with one show ?thesis by simp
    next
      case Infinity
      with Finite b pos show ?thesis by (simp add: quality_def)
    next
      case (Finite q)
      with one have "1 \<le> q" by simp
      then have "100 \<le> q * 100" by simp
      then have "Finite 100 \<le> round_double (q * 100)" by (rule round_double_ge_100)
      with Finite \<open>d_nn = Finite a\<close> b pos show ?thesis by (simp add: quality_def)
    qed
  qed
qed

section \<open>The examples\<close>

subsection \<open>The float matrix\<close>

lemma round_tenth: "round_double (1 / 10) = Finite (3602879701896397 / 36028797018963968)"
proof -
  have "round_half_even ((1 / 10) * 2 ^ (4 + 52)) = 7205759403792794"
    by (rule round_half_even_near) simp
  with round_double_below_one [of "1 / 10" 4] show ?thesis by simp
qed

lemma round_fifth: "round_double (1 / 5) = Finite (3602879701896397 / 18014398509481984)"
proof -
  have "round_half_even ((1 / 5) * 2 ^ (3 + 52)) = 7205759403792794"
    by (rule round_half_even_near) simp
  with round_double_below_one [of "1 / 5" 3] show ?thesis by simp
qed

lemma round_three_tenths: "round_double (3 / 10) = Finite (5404319552844595 / 18014398509481984)"
proof -
  have "round_half_even ((3 / 10) * 2 ^ (2 + 52)) = 5404319552844595"
    by (rule round_half_even_near) simp
  with round_double_below_one [of "3 / 10" 2] show ?thesis by simp
qed

lemma round_zero: "round_double 0 = Finite 0"
  by (simp add: round_double_def round_magnitude_def)

lemma example_floats_entries:
  "example_floats =
     [[0, 3602879701896397 / 36028797018963968, 5404319552844595 / 18014398509481984],
      [3602879701896397 / 36028797018963968, 0, 3602879701896397 / 18014398509481984],
      [5404319552844595 / 18014398509481984, 3602879701896397 / 18014398509481984, 0]]"
  by (simp add: example_floats_def double_of_def round_tenth round_fifth round_three_tenths
      round_zero)

text \<open>The additions of the two tours.\<close>

lemma sum_01: "round_double (0 + 3602879701896397 / 36028797018963968) =
    Finite (3602879701896397 / 36028797018963968)"
proof -
  have "round_half_even ((3602879701896397 / 36028797018963968) * 2 ^ (4 + 52)) = 7205759403792794"
    by (rule round_half_even_near) simp
  with round_double_below_one [of "3602879701896397 / 36028797018963968" 4] show ?thesis by simp
qed

lemma sum_01_12: "round_double (3602879701896397 / 36028797018963968 + 3602879701896397 / 18014398509481984) =
    Finite (1351079888211149 / 4503599627370496)"
proof -
  have "round_half_even ((10808639105689191 / 36028797018963968) * 2 ^ (2 + 52)) =
      (if even (5404319552844595::int) then 5404319552844595 else 5404319552844595 + 1)"
    by (rule round_half_even_tie) simp
  with round_double_below_one [of "10808639105689191 / 36028797018963968" 2] show ?thesis by simp
qed

lemma sum_01_12_20: "round_double (1351079888211149 / 4503599627370496 + 5404319552844595 / 18014398509481984) =
    Finite (1351079888211149 / 2251799813685248)"
proof -
  have "round_half_even ((10808639105689191 / 18014398509481984) * 2 ^ (1 + 52)) =
      (if even (5404319552844595::int) then 5404319552844595 else 5404319552844595 + 1)"
    by (rule round_half_even_tie) simp
  with round_double_below_one [of "10808639105689191 / 18014398509481984" 1] show ?thesis by simp
qed

lemma sum_02: "round_double (0 + 5404319552844595 / 18014398509481984) =
    Finite (5404319552844595 / 18014398509481984)"
proof -
  have "round_half_even ((5404319552844595 / 18014398509481984) * 2 ^ (2 + 52)) = 5404319552844595"
    by (rule round_half_even_near) simp
  with round_double_below_one [of "5404319552844595 / 18014398509481984" 2] show ?thesis by simp
qed

lemma sum_02_21: "round_double (5404319552844595 / 18014398509481984 + 3602879701896397 / 18014398509481984) =
    Finite (1 / 2)"
proof -
  have "round_half_even ((1 / 2) * 2 ^ (1 + 52)) = 4503599627370496"
    by (rule round_half_even_near) simp
  with round_double_below_one [of "1 / 2" 1] show ?thesis by simp
qed

lemma sum_02_21_10: "round_double (1 / 2 + 3602879701896397 / 36028797018963968) =
    Finite (5404319552844595 / 9007199254740992)"
proof -
  have "round_half_even ((21617278211378381 / 36028797018963968) * 2 ^ (1 + 52)) = 5404319552844595"
    by (rule round_half_even_near) simp
  with round_double_below_one [of "21617278211378381 / 36028797018963968" 1] show ?thesis by simp
qed

lemma add_01: "add round_double (Finite 0) (3602879701896397 / 36028797018963968) =
    Finite (3602879701896397 / 36028797018963968)"
  using sum_01 by simp

lemma add_01_12:
  "add round_double (Finite (3602879701896397 / 36028797018963968)) (3602879701896397 / 18014398509481984) =
    Finite (1351079888211149 / 4503599627370496)"
  using sum_01_12 by simp

lemma add_01_12_20:
  "add round_double (Finite (1351079888211149 / 4503599627370496)) (5404319552844595 / 18014398509481984) =
    Finite (1351079888211149 / 2251799813685248)"
  using sum_01_12_20 by simp

lemma add_02: "add round_double (Finite 0) (5404319552844595 / 18014398509481984) =
    Finite (5404319552844595 / 18014398509481984)"
  using sum_02 by simp

lemma add_02_21:
  "add round_double (Finite (5404319552844595 / 18014398509481984)) (3602879701896397 / 18014398509481984) =
    Finite (1 / 2)"
  using sum_02_21 by simp

lemma add_02_21_10:
  "add round_double (Finite (1 / 2)) (3602879701896397 / 36028797018963968) =
    Finite (5404319552844595 / 9007199254740992)"
  using sum_02_21_10 by simp

lemmas float_additions = add_01 add_01_12 add_01_12_20 add_02 add_02_21 add_02_21_10

lemma example_floats_square: "square example_floats" and example_floats_length: "length example_floats = 3"
  by (simp_all add: square_def example_floats_def)

lemma cost_floats_12:
  "tour_cost round_double example_floats [1, 2] = Finite (1351079888211149 / 2251799813685248)"
  by (simp add: tour_cost_def edge_sum_path_cost example_floats_entries float_additions
      del: add.simps)

lemma cost_floats_21:
  "tour_cost round_double example_floats [2, 1] = Finite (5404319552844595 / 9007199254740992)"
  by (simp add: tour_cost_def edge_sum_path_cost example_floats_entries float_additions
      del: add.simps)

lemma exact_cost_floats_12:
  "tour_cost exact example_floats [1, 2] = Finite (21617278211378381 / 36028797018963968)"
  by (simp add: tour_cost_def edge_sum_path_cost example_floats_entries exact_def)

lemma exact_cost_floats_21:
  "tour_cost exact example_floats [2, 1] = Finite (21617278211378381 / 36028797018963968)"
  by (simp add: tour_cost_def edge_sum_path_cost example_floats_entries exact_def)

lemma permutations_12: "permutations [1..<3] = [[1, 2], [2, 1::nat]]"
  by code_simp

lemma not_expired_still: "\<not> expired still_clock 60 k"
  by (simp add: expired_def still_clock_def)

lemma brute_force_still:
  assumes "square d" and "0 < length d"
  shows "tsp_brute_force rnd still_clock d 60 =
     Inr (snd (foldl (improve 0 (tour_cost rnd d)) (Infinity, None) (permutations [1..<length d])),
          Some (fst (foldl (improve 0 (tour_cost rnd d)) (Infinity, None)
            (permutations [1..<length d]))))"
  by (simp only: tsp_brute_force_fold [OF assms] not_expired_still simp_thms if_False)

lemma example_floats_brute_force:
  "tsp_brute_force round_double still_clock example_floats 60 =
     Inr (Some [0, 2, 1], Some (Finite (5404319552844595 / 9007199254740992)))"
proof -
  have l: "0 < length example_floats" by (simp add: example_floats_length)
  show ?thesis
    by (simp add: brute_force_still [OF example_floats_square l] example_floats_length
        permutations_12 cost_floats_12 cost_floats_21 less_Infinity Finite_less
        del: One_nat_def)
qed

lemma example_floats_exact_brute_force:
  "tsp_brute_force exact still_clock example_floats 60 =
     Inr (Some [0, 1, 2], Some (Finite (21617278211378381 / 36028797018963968)))"
proof -
  have l: "0 < length example_floats" by (simp add: example_floats_length)
  show ?thesis
    by (simp add: brute_force_still [OF example_floats_square l] example_floats_length
        permutations_12 exact_cost_floats_12 exact_cost_floats_21 less_Infinity Finite_less
        del: One_nat_def)
qed

lemma example_floats_nearest_neighbor:
  "tsp_nearest_neighbor round_double example_floats 0 =
     Inr ([0, 1, 2], Finite (1351079888211149 / 2251799813685248))"
  by (simp add: tsp_nearest_neighbor_def nn_loop.simps py_min_def set_remove_def dist_at_def
      getitem_def example_floats_entries float_additions upt_conv_Cons del: add.simps)

subsection \<open>The far locations\<close>

text \<open>The only tour of the far locations overflows.\<close>

lemma example_far_square: "square example_far" and example_far_length: "length example_far = 2"
  by (simp_all add: square_def example_far_def)

lemma add_far_1: "add round_double (Finite 0) half_range = Finite half_range"
proof -
  have "round_half_even (2 ^ 1023 / 2 ^ (1023 - 52)) = 2 ^ 52"
    by (rule round_half_even_near) simp
  with round_double_from_one [of 1023 "2 ^ 1023"] show ?thesis by (simp add: half_range_def)
qed

lemma add_far_2: "add round_double (Finite half_range) half_range = Infinity"
  by (simp add: round_double_def round_magnitude_def half_range_def)

lemma cost_far: "tour_cost round_double example_far [1] = Infinity"
  by (simp add: tour_cost_def edge_sum_path_cost example_far_def add_far_1 add_far_2
      del: add.simps)

lemma permutations_1: "permutations [1..<2] = [[1::nat]]"
  by code_simp

lemma example_far_brute_force:
  "tsp_brute_force round_double still_clock example_far 60 = Inr (None, Some Infinity)"
proof -
  have l: "0 < length example_far" by (simp add: example_far_length)
  show ?thesis
    by (simp add: brute_force_still [OF example_far_square l] example_far_length
        permutations_1 cost_far del: One_nat_def)
qed

subsection \<open>The integer matrix\<close>



lemma example3_brute_force:
  "tsp_brute_force exact still_clock example3 60 = Inr (Some [0, 1, 2], Some (Finite 7))"
  by code_simp

lemma example3_nearest_neighbor: "tsp_nearest_neighbor exact example3 0 = Inr ([0, 1, 2], Finite 7)"
  by code_simp

section \<open>Consequences for the two solvers\<close>

text \<open>The distance of a run without timeout is the least added cost of a tour.\<close>

lemma brute_force_least:
  assumes "square d" and "0 < length d"
    and "tsp_brute_force rnd clock d timeout = Inr (r, Some best)"
  shows "best = Min (tour_cost rnd d ` tours (length d))"
proof -
  from tsp_brute_force_returned [OF assms]
  have "\<forall>q \<in> tours (length d). best \<le> tour_cost rnd d q"
    and "\<exists>q \<in> tours (length d). best = tour_cost rnd d q" by blast+
  then have "Min (tour_cost rnd d ` tours (length d)) = best"
    using finite_tours by (intro Min_eqI) auto
  then show ?thesis by simp
qed

text \<open>In every arithmetic the nearest neighbour from 0 is not better than the brute force.\<close>

lemma nn_not_below_bf:
  assumes "square d" and "0 < length d"
    and "tsp_brute_force rnd clock d timeout = Inr (r, Some d_bf)"
    and "tsp_nearest_neighbor rnd d 0 = Inr (route', d_nn)"
  shows "d_bf \<le> d_nn"
proof -
  from tsp_brute_force_returned [OF assms(1,2,3)]
  have mi: "\<forall>q \<in> tours (length d). d_bf \<le> tour_cost rnd d q" by blast
  from nearest_neighbor_tour [OF assms(1,2,4)] obtain q
    where "q \<in> tours (length d)" and "d_nn = tour_cost rnd d q" by auto
  with mi show ?thesis by simp
qed



text \<open>Under the late clock the first check of the brute force succeeds, for any matrix.\<close>

lemma brute_force_late_clock: "tsp_brute_force rnd late_clock d 60 = Inr (None, None)"
proof -
  obtain p ps where "permutations (filter (\<lambda>i. i \<noteq> 0) [0..<length d]) = p # ps"
    using permutations_nonempty by (metis list.exhaust)
  moreover have "expired late_clock 60 0" by (simp add: expired_def late_clock_def)
  ultimately show ?thesis
    unfolding tsp_brute_force_def Let_def by (simp only: bf_loop_timeout_now)
qed

text \<open>The comparison mode tests the route as well, once the nearest neighbour has returned.\<close>

lemma compare_all_approaches_timeout:
  assumes "square d" and "0 < length d"
  shows "\<exists>td. compare_all_approaches rnd late_clock n d time_bf time_nn =
     Inr [Whole n, Text ''TIMEOUT'', Fixed 2 td, Text ''N/A'', Text ''TIMEOUT'',
          Fixed 6 (Finite time_nn)]"
proof -
  have "(0::int) < int (length d)" using assms(2) by simp
  from tsp_nearest_neighbor_result [OF assms(1) order_refl this, of rnd]
  obtain r td where "tsp_nearest_neighbor rnd d 0 = Inr (r, td)" by auto
  then show ?thesis
    by (simp add: compare_all_approaches_def brute_force_late_clock)
qed

text \<open>
  Two runs of the loop from the same state that both return a route return the same
  pair, whatever their clocks and timeouts.
\<close>

lemma bf_loop_deterministic:
  "bf_loop rnd c1 d t1 s ps (bd, br, r1) = Inr (Some ra, xa) \<Longrightarrow>
   bf_loop rnd c2 d t2 s ps (bd, br, r2) = Inr (Some rb, xb) \<Longrightarrow> ra = rb \<and> xa = xb"
proof (induction ps arbitrary: bd br r1 r2)
  case Nil
  then show ?case by simp
next
  case (Cons p ps)
  from Cons.prems(1) have n1: "\<not> c1 (Suc r1) - c1 0 > t1" by (auto split: if_splits)
  from Cons.prems(2) have n2: "\<not> c2 (Suc r2) - c2 0 > t2" by (auto split: if_splits)
  from Cons.prems(1) n1 obtain w where w: "route_distance rnd d (s # p @ [s]) = Inr w"
    by (cases "route_distance rnd d (s # p @ [s])") (auto simp: Let_def)
  show ?case
  proof (cases "w < bd")
    case True
    with Cons.prems n1 n2 w
    have "bf_loop rnd c1 d t1 s ps (w, Some (butlast (s # p @ [s])), Suc r1) = Inr (Some ra, xa)"
      and "bf_loop rnd c2 d t2 s ps (w, Some (butlast (s # p @ [s])), Suc r2) = Inr (Some rb, xb)"
      by (simp_all add: Let_def)
    then show ?thesis by (rule Cons.IH)
  next
    case False
    with Cons.prems n1 n2 w
    have "bf_loop rnd c1 d t1 s ps (bd, br, Suc r1) = Inr (Some ra, xa)"
      and "bf_loop rnd c2 d t2 s ps (bd, br, Suc r2) = Inr (Some rb, xb)"
      by (simp_all add: Let_def)
    then show ?thesis by (rule Cons.IH)
  qed
qed

text \<open>
  On float entries as well, the nearest neighbour from 0 is not better than a complete
  brute force, and the quality ratio of a positive optimum is at least 100.
\<close>

lemma nn_not_below_bf_double:
  assumes "square d" and "0 < length d"
    and "tsp_brute_force round_double clock d timeout = Inr (Some route, Some d_bf)"
    and "tsp_nearest_neighbor round_double d 0 = Inr (route', d_nn)"
  shows "d_bf \<le> d_nn \<and>
     (Finite 0 < d_bf \<longrightarrow>
        (\<exists>q. quality round_double d_nn (Some d_bf) = Inr (Ratio q) \<and> Finite 100 \<le> q))"
proof -
  have le: "d_bf \<le> d_nn"
    using assms by (rule nn_not_below_bf)
  from tsp_brute_force_returned [OF assms(1,2,3)] have "d_bf < Infinity" by auto
  with le show ?thesis by (auto intro: quality_double_at_least_100)
qed

section \<open>The claims\<close>

text \<open>
  C1, as amended. For a square matrix with at least one location, a run of
  \<open>tsp_brute_force\<close> that does not take the timeout branch returns as distance the
  minimum, over all orderings of the locations \<open>1..N-1\<close>, of the cost of the closed tour
  through \<open>0\<close>, the ordering, and \<open>0\<close> again, as the code adds it: the \<open>N\<close> edge weights
  added to 0 one after the other in the arithmetic of the entries, which for floats
  rounds to a double after every addition.
\<close>

theorem brute_force_optimal:
  assumes "square d" and "0 < length d"
    and "tsp_brute_force rnd clock d timeout = Inr (route, Some best)"
  shows "best = Min (tour_cost rnd d ` tours (length d))"
  using assms by (rule brute_force_least)

text \<open>The float matrix: the returned \<^verbatim>\<open>0.6\<close> is the least of the two float sums.\<close>

theorem brute_force_optimal_witness:
  "square example_floats \<and> 0 < length example_floats \<and>
   tsp_brute_force round_double still_clock example_floats 60 =
     Inr (Some [0, 2, 1], Some (Finite (5404319552844595 / 9007199254740992))) \<and>
   Finite (5404319552844595 / 9007199254740992) =
     Min (tour_cost round_double example_floats ` tours (length example_floats))"
proof -
  have l: "0 < length example_floats" by (simp add: example_floats_length)
  from brute_force_optimal [OF example_floats_square l example_floats_brute_force]
    example_floats_square l example_floats_brute_force
  show ?thesis by blast
qed

text \<open>
  C1 as stated fails on the float matrix: the returned distance is the double
  \<^verbatim>\<open>0.6\<close>, which is below the least sum of the edge weights of a tour.
\<close>

theorem brute_force_optimal_counterexample:
  "square example_floats \<and> 0 < length example_floats \<and>
   tsp_brute_force round_double still_clock example_floats 60 =
     Inr (Some [0, 2, 1], Some (Finite (5404319552844595 / 9007199254740992))) \<and>
   Min (tour_cost exact example_floats ` tours (length example_floats)) =
     Finite (21617278211378381 / 36028797018963968) \<and>
   Finite (5404319552844595 / 9007199254740992) \<noteq> Finite (21617278211378381 / 36028797018963968)"
proof -
  have l: "0 < length example_floats" by (simp add: example_floats_length)
  have "Min (tour_cost exact example_floats ` tours (length example_floats)) =
     Finite (21617278211378381 / 36028797018963968)"
    using brute_force_least [OF example_floats_square l example_floats_exact_brute_force]
    by simp
  moreover have "Finite (5404319552844595 / 9007199254740992) \<noteq>
      Finite (21617278211378381 / 36028797018963968)" by simp
  ultimately show ?thesis
    using example_floats_square l example_floats_brute_force by blast
qed

text \<open>
  C2, as amended. For a square matrix with at least one location, the route returned by
  \<open>tsp_brute_force\<close>, when it returns one, and the route returned by
  \<open>tsp_nearest_neighbor\<close> for a start index in \<open>0..N-1\<close>, is a permutation of \<open>0..N-1\<close> of
  length \<open>N\<close> that begins with the start index, and the reported distance is the
  distance recomputed in the arithmetic of the entries: the edges between consecutive
  route elements added to 0 in route order, then the closing edge.
\<close>

theorem route_validity:
  assumes "square d" and "0 < length d"
  shows "(tsp_brute_force rnd clock d timeout = Inr (Some route, Some best) \<longrightarrow>
            mset route = mset [0..<length d] \<and> length route = length d \<and> route ! 0 = 0 \<and>
            best = recomputed_distance rnd d route)
       \<and> (0 \<le> start \<and> start < int (length d) \<and>
          tsp_nearest_neighbor rnd d start = Inr (route', td) \<longrightarrow>
            mset route' = mset [0..<length d] \<and> length route' = length d \<and>
            int (route' ! 0) = start \<and> td = recomputed_distance rnd d route')"
proof (intro conjI impI)
  assume bf: "tsp_brute_force rnd clock d timeout = Inr (Some route, Some best)"
  from tsp_brute_force_returned [OF assms bf] obtain p
    where r: "route = 0 # p" and b: "tour_cost rnd d p = best" and p: "p \<in> tours (length d)"
    by auto
  from mset_start_tour [OF assms(2) p] r show m: "mset route = mset [0..<length d]" by simp
  from m show "length route = length d" by (metis length_upt diff_zero size_mset)
  from r show "route ! 0 = 0" by simp
  from b r show "best = recomputed_distance rnd d route" by (simp add: tour_cost_recomputed)
next
  assume nn: "0 \<le> start \<and> start < int (length d) \<and>
      tsp_nearest_neighbor rnd d start = Inr (route', td)"
  then have s0: "0 \<le> start" and s1: "start < int (length d)" by simp_all
  from tsp_nearest_neighbor_result [OF assms(1) s0 s1, of rnd] nn obtain q
    where r: "route' = nat start # q" and t: "td = recomputed_distance rnd d (nat start # q)"
      and m: "mset (nat start # q) = mset [0..<length d]" by auto
  from r m show m': "mset route' = mset [0..<length d]" by simp
  from m' show "length route' = length d" by (metis length_upt diff_zero size_mset)
  from r s0 show "int (route' ! 0) = start" by simp
  from r t show "td = recomputed_distance rnd d route'" by simp
qed

text \<open>The float matrix, brute force and nearest neighbour from 0.\<close>

theorem route_validity_witness:
  "square example_floats \<and> 0 < length example_floats \<and>
   tsp_brute_force round_double still_clock example_floats 60 =
     Inr (Some [0, 2, 1], Some (Finite (5404319552844595 / 9007199254740992))) \<and>
   tsp_nearest_neighbor round_double example_floats 0 =
     Inr ([0, 1, 2], Finite (1351079888211149 / 2251799813685248)) \<and>
   mset [0, 2, 1] = mset [0..<length example_floats] \<and>
   Finite (5404319552844595 / 9007199254740992) =
     recomputed_distance round_double example_floats [0, 2, 1] \<and>
   mset [0, 1, 2] = mset [0..<length example_floats] \<and>
   Finite (1351079888211149 / 2251799813685248) =
     recomputed_distance round_double example_floats [0, 1, 2]"
proof -
  have l: "0 < length example_floats" by (simp add: example_floats_length)
  have s: "(0::int) \<le> 0 \<and> 0 < int (length example_floats)" by (simp add: example_floats_length)
  from route_validity [OF example_floats_square l, of round_double still_clock 60 "[0, 2, 1]"
      "Finite (5404319552844595 / 9007199254740992)" 0 "[0, 1, 2]"
      "Finite (1351079888211149 / 2251799813685248)"]
    example_floats_brute_force example_floats_nearest_neighbor s example_floats_square l
  show ?thesis by blast
qed

text \<open>
  C2 as stated fails on floats. On the far locations the brute force, with no timeout,
  returns no route and the distance \<^verbatim>\<open>inf\<close>; and on the float matrix the distance of
  the nearest neighbour, \<^verbatim>\<open>0.6000000000000001\<close>, is not the sum of the edge weights of
  its route.
\<close>

theorem route_validity_counterexample:
  "square example_far \<and> \<not> expired still_clock 60 0 \<and>
   tsp_brute_force round_double still_clock example_far 60 = Inr (None, Some Infinity) \<and>
   square example_floats \<and>
   tsp_nearest_neighbor round_double example_floats 0 =
     Inr ([0, 1, 2], Finite (1351079888211149 / 2251799813685248)) \<and>
   recomputed_distance exact example_floats [0, 1, 2] =
     Finite (21617278211378381 / 36028797018963968) \<and>
   Finite (1351079888211149 / 2251799813685248) \<noteq> Finite (21617278211378381 / 36028797018963968)"
proof -
  have "recomputed_distance exact example_floats [0, 1, 2] =
     Finite (21617278211378381 / 36028797018963968)"
    using exact_cost_floats_12 by (simp only: tour_cost_recomputed)
  moreover have "Finite (1351079888211149 / 2251799813685248) \<noteq>
      Finite (21617278211378381 / 36028797018963968)" by simp
  ultimately show ?thesis
    using example_far_square not_expired_still [of 0] example_far_brute_force
      example_floats_square example_floats_nearest_neighbor by blast
qed




text \<open>
  C4. On a square matrix with at least one location, when the timeout check at the head
  of any of the \<open>(N-1)!\<close> iterations succeeds, \<open>tsp_brute_force\<close> returns the pair
  \<^verbatim>\<open>(None, None)\<close>, whatever it had examined and recorded before, in every arithmetic.
\<close>

theorem timeout_returns_no_result:
  assumes "square d" and "0 < length d"
    and "k < fact (length d - 1)" and "expired clock timeout k"
  shows "tsp_brute_force rnd clock d timeout = Inr (None, None)"
proof -
  have "length (permutations [1..<length d]) = fact (length d - 1)"
    by (simp add: length_permutations)
  with assms(3,4) have "\<exists>k<length (permutations [1..<length d]). expired clock timeout k"
    by auto
  then show ?thesis by (simp only: tsp_brute_force_fold [OF assms(1,2)] if_True)
qed

text \<open>
  The float matrix under a clock whose first check passes and whose second check is
  late: the route recorded in the first iteration is not returned.
\<close>

theorem timeout_returns_no_result_witness:
  "square example_floats \<and> 0 < length example_floats \<and>
   (1::nat) < fact (length example_floats - 1) \<and>
   expired second_check_late 60 1 \<and> \<not> expired second_check_late 60 0 \<and>
   tsp_brute_force round_double second_check_late example_floats 60 = Inr (None, None)"
proof -
  have l: "0 < length example_floats" by (simp add: example_floats_length)
  have k: "(1::nat) < fact (length example_floats - 1)"
    by (simp add: example_floats_length fact_numeral)
  have e: "expired second_check_late 60 1" by (simp add: expired_def second_check_late_def)
  have n: "\<not> expired second_check_late 60 0" by (simp add: expired_def second_check_late_def)
  from timeout_returns_no_result [OF example_floats_square l k e] example_floats_square l k e n
  show ?thesis by blast
qed

text \<open>
  C5. A timed-out run is to be reported apart from a computed one in every mode. The
  body of \<open>test_small_cases\<close> formats the distance of the timed-out run and raises
  \<^verbatim>\<open>TypeError\<close>, where the body of \<open>time_brute_force\<close> tests the route and prints
  \<^verbatim>\<open>N/A\<close> and \<^verbatim>\<open>TIMEOUT\<close>, as that of \<open>compare_all_approaches\<close> does
  (\<open>compare_all_approaches_timeout\<close>).
\<close>

theorem test_small_cases_timeout:
  "test_small_cases rnd late_clock n d = Inl TypeError \<and>
   time_brute_force rnd late_clock (Suc n) d elapsed =
     Inr [Whole (Suc n), Whole (fact n), Fixed 3 (Finite elapsed), Text ''N/A'', Text ''TIMEOUT'']"
  by (simp add: test_small_cases_def time_brute_force_def brute_force_late_clock format_f_def)

text \<open>
  C6, as amended. On a square matrix with at least one location, the route that
  \<open>tsp_brute_force\<close> returns is \<open>0\<close> followed by the first permutation, in the
  enumeration order of \<^verbatim>\<open>itertools.permutations\<close> over the locations \<open>1..N-1\<close>, whose
  tour cost as the code adds it (in the arithmetic of the entries) is the least of these
  costs: a later permutation of equal added cost never replaces it.
\<close>

theorem first_minimum_wins:
  assumes "square d" and "0 < length d"
    and "tsp_brute_force rnd clock d timeout = Inr (Some route, Some best)"
  shows "\<exists>p. route = 0 # p \<and> best = tour_cost rnd d p \<and>
     (\<forall>q \<in> tours (length d). tour_cost rnd d p \<le> tour_cost rnd d q) \<and>
     find (\<lambda>q. tour_cost rnd d q = tour_cost rnd d p)
       (permutations (filter (\<lambda>i. i \<noteq> 0) [0..<length d])) = Some p"
  using tsp_brute_force_returned [OF assms] unfolding other_locations by auto

text \<open>The float matrix: \<open>[2, 1]\<close> is the first permutation of the least float sum.\<close>

theorem first_minimum_wins_witness:
  "square example_floats \<and> 0 < length example_floats \<and>
   tsp_brute_force round_double still_clock example_floats 60 =
     Inr (Some [0, 2, 1], Some (Finite (5404319552844595 / 9007199254740992))) \<and>
   find (\<lambda>q. tour_cost round_double example_floats q = tour_cost round_double example_floats [2, 1])
     (permutations (filter (\<lambda>i. i \<noteq> 0) [0..<length example_floats])) = Some [2, 1]"
proof -
  have l: "0 < length example_floats" by (simp add: example_floats_length)
  from first_minimum_wins [OF example_floats_square l example_floats_brute_force]
  have "find (\<lambda>q. tour_cost round_double example_floats q = tour_cost round_double example_floats [2, 1])
     (permutations (filter (\<lambda>i. i \<noteq> 0) [0..<length example_floats])) = Some [2, 1]"
    by auto
  with example_floats_square l example_floats_brute_force show ?thesis by blast
qed

text \<open>
  C6 as stated fails on the float matrix, which is symmetric: the tours of \<open>[1, 2]\<close> and
  of \<open>[2, 1]\<close> have the same sum of edge weights and \<open>[1, 2]\<close> is enumerated first, but
  the float sum of \<open>[2, 1]\<close> is the smaller one and its route is returned.
\<close>

theorem first_minimum_wins_counterexample:
  "square example_floats \<and> example_floats ! 1 ! 2 = example_floats ! 2 ! 1 \<and>
   example_floats ! 0 ! 1 = example_floats ! 1 ! 0 \<and>
   example_floats ! 0 ! 2 = example_floats ! 2 ! 0 \<and>
   permutations (filter (\<lambda>i. i \<noteq> 0) [0..<length example_floats]) = [[1, 2], [2, 1]] \<and>
   tour_cost exact example_floats [1, 2] = tour_cost exact example_floats [2, 1] \<and>
   tsp_brute_force round_double still_clock example_floats 60 =
     Inr (Some [0, 2, 1], Some (Finite (5404319552844595 / 9007199254740992)))"
proof -
  have "permutations (filter (\<lambda>i. i \<noteq> 0) [0..<length example_floats]) = [[1, 2], [2, 1]]"
    unfolding other_locations by (simp only: example_floats_length permutations_12)
  moreover have "tour_cost exact example_floats [1, 2] = tour_cost exact example_floats [2, 1]"
    by (simp only: exact_cost_floats_12 exact_cost_floats_21)
  moreover have "example_floats ! 1 ! 2 = example_floats ! 2 ! 1"
    and "example_floats ! 0 ! 1 = example_floats ! 1 ! 0"
    and "example_floats ! 0 ! 2 = example_floats ! 2 ! 0"
    by (simp_all add: example_floats_entries)
  ultimately show ?thesis
    using example_floats_square example_floats_brute_force by blast
qed





text \<open>
  C9. Two invocations of \<open>tsp_nearest_neighbor\<close> on the same matrix and start return
  the same result, and two invocations of \<open>tsp_brute_force\<close> on the same matrix that
  both complete without timeout return the same route and the same distance, whatever
  the clock readings and timeouts of the two runs.
\<close>

theorem two_run_determinism:
  "(tsp_nearest_neighbor rnd d start = r1 \<and> tsp_nearest_neighbor rnd d start = r2 \<longrightarrow> r1 = r2) \<and>
   (tsp_brute_force rnd c1 d t1 = Inr (Some ra, xa) \<and>
    tsp_brute_force rnd c2 d t2 = Inr (Some rb, xb) \<longrightarrow> ra = rb \<and> xa = xb)"
  unfolding tsp_brute_force_def Let_def
  by (auto dest: bf_loop_deterministic)

text \<open>The integer matrix under a clock that stands still and one that advances.\<close>

theorem two_run_determinism_witness:
  "tsp_brute_force exact still_clock example3 60 = Inr (Some [0, 1, 2], Some (Finite 7)) \<and>
   tsp_brute_force exact ticking_clock example3 5 = Inr (Some [0, 1, 2], Some (Finite 7)) \<and>
   tsp_nearest_neighbor exact example3 0 = Inr ([0, 1, 2], Finite 7)"
proof -
  have t: "tsp_brute_force exact ticking_clock example3 5 = Inr (Some [0, 1, 2], Some (Finite 7))"
    by code_simp
  from two_run_determinism [of exact example3 0 "Inr ([0, 1, 2], Finite 7)" "Inr ([0, 1, 2], Finite 7)"
      still_clock 60 "[0, 1, 2]" "Some (Finite 7)" ticking_clock 5 "[0, 1, 2]" "Some (Finite 7)"]
    example3_brute_force t example3_nearest_neighbor
  show ?thesis by blast
qed

text \<open>
  C10, as amended. For the empty matrix \<open>tsp_nearest_neighbor\<close> raises \<^verbatim>\<open>KeyError\<close>
  (removing the start from the empty set), and \<open>tsp_brute_force\<close> raises
  \<^verbatim>\<open>IndexError\<close> (costing the route \<open>[0, 0]\<close>) unless the timeout check at the head of
  its one iteration succeeds, in which case it returns \<^verbatim>\<open>(None, None)\<close>. Neither returns
  a route.
\<close>

theorem empty_matrix:
  "tsp_nearest_neighbor rnd [] start = Inl KeyError \<and>
   tsp_brute_force rnd clock [] timeout =
     (if expired clock timeout 0 then Inr (None, None) else Inl IndexError)"
  by (simp add: tsp_nearest_neighbor_def tsp_brute_force_def permutations.simps expired_def
      route_distance_def dist_at_def getitem_def not_less)

text \<open>Under the clock that stands still the brute force raises.\<close>

theorem empty_matrix_witness:
  "tsp_nearest_neighbor round_double [] 0 = Inl KeyError \<and> \<not> expired still_clock 60 0 \<and>
   tsp_brute_force round_double still_clock [] 60 = Inl IndexError"
proof -
  have n: "\<not> expired still_clock 60 0" by (simp add: expired_def still_clock_def)
  from empty_matrix [of round_double 0 still_clock 60] n show ?thesis by simp
qed

text \<open>
  C10 as stated fails under the late clock: the brute force on the empty matrix returns
  \<^verbatim>\<open>(None, None)\<close>, not an error.
\<close>

theorem empty_matrix_counterexample:
  "expired late_clock 60 0 \<and> tsp_brute_force round_double late_clock [] 60 = Inr (None, None)"
  by (simp add: brute_force_late_clock expired_def late_clock_def)

end
